theory Spec2Isabelle
  imports Complex_Main "HOL-Library.AList"
begin

section \<open>Python values used by the bot\<close>

text \<open>
  The bot is three Python classes: \<open>CookieExtractor\<close> (extract_cookies.py),
  \<open>HideMyEmailGenerator\<close> (generator_client.py) and \<open>TaskScheduler\<close> (scheduler.py).
  Their state is a few attributes, the files under \<open>sessions/\<close>, the wall clock and two
  external programs (the browser's cookie store and the generator script). The embedding
  threads a \<open>world\<close> (clock, session files, log of generation calls) through every
  function and takes the answers of the external programs from an \<open>env\<close> record.

  Python exceptions are values: a function that can raise returns \<open>exn + 'a\<close> together
  with the world it leaves behind (the effects that happened before the raise stay).
  Only subclasses of \<open>Exception\<close> are modelled, those that \<open>except Exception\<close> catches
  (not KeyboardInterrupt or SystemExit, and not MemoryError, which any step can raise).
\<close>

datatype exn = TypeError | AttributeError | OSError | OverflowError | ValueError

text \<open>A cookie dictionary \<open>Dict[str, str]\<close>, in insertion order; \<open>{}\<close> is \<open>[]\<close>.\<close>

type_synonym cookies = "(string \<times> string) list"

text \<open>
  A Python float: a finite value, an infinity or NaN. Finite values are real numbers:
  rounding to the nearest double is not modelled, overflow is. A product overflows to an
  infinity, and an int is too large to become a float, when its magnitude reaches
  \<open>2^1024 - 2^970\<close>, halfway between the largest double and \<open>2^1024\<close>.
\<close>

datatype pyfloat = Fin real | PInf | NInf | NaN

definition overflow_bound :: real where
  "overflow_bound = 2 ^ 1024 - 2 ^ 970"

text \<open>
  A value read from config.json by \<open>json.load\<close>: null, a bool, an int of any size, a float
  (\<open>json.load\<close> accepts NaN and the infinities, and reads \<open>1e400\<close> as infinity), a string,
  or an array or object (\<open>JOther\<close>). \<open>py_range\<close> is what \<open>range(v)\<close> accepts: an int or
  a bool; anything else raises TypeError, here \<open>None\<close>.
\<close>

datatype jval = JNull | JBool bool | JInt int | JFloat pyfloat | JStr string | JOther

fun py_range :: "jval \<Rightarrow> int option" where
  "py_range (JInt n) = Some n"
| "py_range (JBool b) = Some (if b then 1 else 0)"
| "py_range JNull = None"
| "py_range (JFloat r) = None"
| "py_range (JStr s) = None"
| "py_range JOther = None"

text \<open>\<open>f * 60\<close> for a float \<open>f\<close>, and \<open>now + g\<close> for the finite clock reading \<open>now\<close> and a
  float \<open>g\<close> (the clock is small, so a finite sum stays finite).\<close>

fun float_times_60 :: "pyfloat \<Rightarrow> pyfloat" where
  "float_times_60 (Fin r) =
     (if \<bar>r * 60\<bar> < overflow_bound then Fin (r * 60) else if 0 < r then PInf else NInf)"
| "float_times_60 PInf = PInf"
| "float_times_60 NInf = NInf"
| "float_times_60 NaN = NaN"

fun float_add :: "real \<Rightarrow> pyfloat \<Rightarrow> pyfloat" where
  "float_add now (Fin g) = Fin (now + g)"
| "float_add now PInf = PInf"
| "float_add now NInf = NInf"
| "float_add now NaN = NaN"

text \<open>
  \<open>now + (v * 60)\<close> for \<open>now = datetime.now().timestamp()\<close> and a configured interval \<open>v\<close>.
  An int or bool times 60 is an int, which the addition converts to a float
  (OverflowError when it is too large). A float times 60 is a float. \<open>None * 60\<close> and
  \<open>{} * 60\<close> raise TypeError; a string or list times 60 is a string or list, and adding
  it to a float raises TypeError.
\<close>

fun next_time :: "real \<Rightarrow> jval \<Rightarrow> exn + pyfloat" where
  "next_time now (JInt n) =
     (if \<bar>real_of_int (n * 60)\<bar> < overflow_bound then Inr (Fin (now + real_of_int (n * 60)))
      else Inl OverflowError)"
| "next_time now (JBool b) = Inr (Fin (now + (if b then 60 else 0)))"
| "next_time now (JFloat f) = Inr (float_add now (float_times_60 f))"
| "next_time now JNull = Inl TypeError"
| "next_time now (JStr s) = Inl TypeError"
| "next_time now JOther = Inl TypeError"

text \<open>\<open>int(x)\<close> of a float: truncation towards zero.\<close>

definition py_int :: "real \<Rightarrow> int" where
  "py_int x = (if 0 \<le> x then \<lfloor>x\<rfloor> else \<lceil>x\<rceil>)"

text \<open>\<open>str(n)\<close> of an int: decimal digits, with a minus sign for a negative number.\<close>

definition digit_char :: "nat \<Rightarrow> char" where
  "digit_char d = char_of (48 + d)"

fun str_nat :: "nat \<Rightarrow> string" where
  "str_nat n = (if n < 10 then [digit_char n] else str_nat (n div 10) @ [digit_char (n mod 10)])"

declare str_nat.simps [simp del]

definition str_int :: "int \<Rightarrow> string" where
  "str_int i = (if i < 0 then CHR ''-'' # str_nat (nat (- i)) else str_nat (nat i))"

section \<open>The world and the environment\<close>

text \<open>
  What \<open>json.load\<close> finds in \<open>sessions/<profile_id>.json\<close>: a session object as
  \<open>save_session\<close> writes it (a dict with a missing or empty "cookies" key is a session
  whose cookies are \<open>[]\<close>), some other JSON value (carrying its truthiness; the empty
  object counts here, being falsy), or a file that cannot be opened or parsed.
  \<open>json.dump\<close> followed by \<open>json.load\<close> is the identity on a dict of strings and ints, so
  the file holds the session itself.
\<close>

record session =
  cookies :: cookies
  profile_id :: string
  timestamp :: int

datatype file_content = Unreadable | OtherJson bool | SessionJson session

text \<open>
  One call of \<open>generate_email\<close>, as logged: the time it was made, the profile, the
  label, whether the generator subprocess was run, and whether the call returned
  \<open>(True, email)\<close>.
\<close>

record gen_call =
  c_time :: real
  c_profile :: string
  c_label :: "string option"
  c_tool_run :: bool
  c_success :: bool

record world =
  clock :: real
  session_files :: "string \<rightharpoonup> file_content"
  gen_log :: "gen_call list"

text \<open>A Chrome profile of config.json: \<open>profile.get("id")\<close> and \<open>profile.get("path")\<close>.\<close>

record profile =
  pid :: "string option"
  path :: "string option"

text \<open>
  What the write in \<open>save_session\<close> does: it succeeds, \<open>open\<close> raises (the file is left as
  it was), or \<open>json.dump\<close> raises after \<open>open(..., 'w')\<close> has truncated the file.
\<close>

datatype io = WriteOk | OpenFails | DumpFails

text \<open>
  What the \<open>try\<close> block of \<open>generate_email\<close> meets: writing the temporary cookie file
  raises, \<open>subprocess.run\<close> raises, or the generator exits with a return code and its
  standard output.
\<close>

datatype proc = TempFileFails | RunFails | Exit int string

text \<open>
  The external collaborators. Each answer may depend on the whole current world (the
  clock, the files, the calls made so far).
  \<^item> \<open>cookie_store\<close>: the rest of \<open>extract_cookies_from_profile\<close> once the profile has a
    path (the SQLite query on the browser's cookie file and the decryption); it returns
    the cookies found (\<open>[]\<close> when it caught its own error) or raises.
  \<^item> \<open>disk\<close>: the outcome of writing \<open>sessions/<profile_id>.json\<close>.
  \<^item> \<open>tool\<close>: the generator subprocess for cookies and a label: seconds elapsed, outcome.
  \<^item> \<open>thread_exits\<close>: whether \<open>join(timeout=5)\<close> finds the scheduler thread finished.
  \<^item> \<open>schedule_every\<close>: the exception, if any, that the \<open>schedule\<close> library raises for
    \<open>schedule.every(v).minutes.do(job)\<close> (it builds \<open>timedelta(minutes=v)\<close>).
  \<^item> \<open>fromtimestamp\<close>: the exception, if any, that \<open>datetime.fromtimestamp(t)\<close> raises for
    a finite \<open>t\<close>: the range of timestamps it accepts depends on the platform.
\<close>

record env =
  cookie_store :: "world \<Rightarrow> string \<Rightarrow> exn + cookies"
  disk :: "world \<Rightarrow> string \<Rightarrow> io"
  tool :: "world \<Rightarrow> cookies \<Rightarrow> string option \<Rightarrow> real \<times> proc"
  thread_exits :: "world \<Rightarrow> bool"
  schedule_every :: "jval \<Rightarrow> exn option"
  fromtimestamp :: "real \<Rightarrow> exn option"

section \<open>The session cache: save_session and load_session\<close>

text \<open>
  \<open>CookieExtractor.save_session\<close>: writes \<open>{"cookies", "profile_id", "timestamp"}\<close> to the
  profile's file and returns True; any exception is caught and False returned.
\<close>

definition save_session :: "env \<Rightarrow> world \<Rightarrow> string \<Rightarrow> cookies \<Rightarrow> bool \<times> world" where
  "save_session E w p cs =
     (case disk E w p of
        WriteOk \<Rightarrow>
          (True, w\<lparr>session_files := (session_files w)
             (p \<mapsto> SessionJson \<lparr>cookies = cs, profile_id = p, timestamp = py_int (clock w)\<rparr>)\<rparr>)
      | OpenFails \<Rightarrow> (False, w)
      | DumpFails \<Rightarrow> (False, w\<lparr>session_files := (session_files w)(p \<mapsto> Unreadable)\<rparr>))"

text \<open>
  \<open>HideMyEmailGenerator.load_session\<close>: None when the file does not exist or cannot be
  parsed, otherwise the parsed JSON value.
\<close>

definition load_session :: "world \<Rightarrow> string \<Rightarrow> file_content option" where
  "load_session w p =
     (case session_files w p of
        None \<Rightarrow> None
      | Some Unreadable \<Rightarrow> None
      | Some f \<Rightarrow> Some f)"

section \<open>The generator client: generate_email and generate_batch\<close>

text \<open>
  The string functions \<open>_parse_email_from_output\<close> uses, over characters below 256:
  \<open>str.isspace\<close>, \<open>str.strip()\<close>, \<open>str.split()\<close>, \<open>str.splitlines()\<close> (a CR LF pair is one
  line break), \<open>sub in s\<close> and \<open>s.split(sep)[1]\<close> (the text between the first and the second
  occurrence of \<open>sep\<close>).
\<close>

definition py_space :: "char \<Rightarrow> bool" where
  "py_space c = (c \<in> set [CHR 0x20, CHR 0x09, CHR 0x0A, CHR 0x0B, CHR 0x0C, CHR 0x0D,
                           CHR 0x1C, CHR 0x1D, CHR 0x1E, CHR 0x1F, CHR 0x85, CHR 0xA0])"

definition line_break :: "char \<Rightarrow> bool" where
  "line_break c = (c \<in> set [CHR 0x0A, CHR 0x0B, CHR 0x0C, CHR 0x0D,
                             CHR 0x1C, CHR 0x1D, CHR 0x1E, CHR 0x85])"

definition strip :: "string \<Rightarrow> string" where
  "strip s = rev (dropWhile py_space (rev (dropWhile py_space s)))"

fun split_ws_from :: "string \<Rightarrow> string \<Rightarrow> string list" where
  "split_ws_from cur [] = (if cur = [] then [] else [cur])"
| "split_ws_from cur (c # cs) =
     (if py_space c then (if cur = [] then split_ws_from [] cs else cur # split_ws_from [] cs)
      else split_ws_from (cur @ [c]) cs)"

definition split_ws :: "string \<Rightarrow> string list" where
  "split_ws s = split_ws_from [] s"

fun crlf :: "string \<Rightarrow> string" where
  "crlf (c # d # cs) =
     (if c = CHR 0x0D \<and> d = CHR 0x0A then CHR 0x0A # crlf cs else c # crlf (d # cs))"
| "crlf cs = cs"

fun splitlines_from :: "string \<Rightarrow> string \<Rightarrow> string list" where
  "splitlines_from cur [] = (if cur = [] then [] else [cur])"
| "splitlines_from cur (c # cs) =
     (if line_break c then cur # splitlines_from [] cs else splitlines_from (cur @ [c]) cs)"

definition splitlines :: "string \<Rightarrow> string list" where
  "splitlines s = splitlines_from [] (crlf s)"

fun contains :: "string \<Rightarrow> string \<Rightarrow> bool" where
  "contains sub [] = (sub = [])"
| "contains sub (c # cs) = (take (length sub) (c # cs) = sub \<or> contains sub cs)"

fun after_first :: "string \<Rightarrow> string \<Rightarrow> string" where
  "after_first sep [] = []"
| "after_first sep (c # cs) =
     (if take (length sep) (c # cs) = sep then drop (length sep) (c # cs)
      else after_first sep cs)"

fun before_first :: "string \<Rightarrow> string \<Rightarrow> string" where
  "before_first sep [] = []"
| "before_first sep (c # cs) =
     (if take (length sep) (c # cs) = sep then [] else c # before_first sep cs)"

definition split_second :: "string \<Rightarrow> string \<Rightarrow> string" where
  "split_second sep s = before_first sep (after_first sep s)"

text \<open>
  \<open>_parse_email_from_output\<close>: the first line with an "@" and a "." decides when it holds
  "Generated email:" (the text after it, stripped, which may be empty); a line with "@"
  and "." but without the marker gives its first whitespace-separated part that has
  both, and the search goes on to the next line when no part has.
\<close>

fun first_email_part :: "string list \<Rightarrow> string option" where
  "first_email_part [] = None"
| "first_email_part (p # ps) =
     (if CHR ''@'' \<in> set p \<and> CHR ''.'' \<in> set p then Some (strip p) else first_email_part ps)"

fun parse_lines :: "string list \<Rightarrow> string option" where
  "parse_lines [] = None"
| "parse_lines (l # ls) =
     (if CHR ''@'' \<in> set l \<and> CHR ''.'' \<in> set l \<and> contains ''Generated email:'' l
      then Some (strip (split_second ''Generated email:'' l))
      else if CHR ''@'' \<in> set l \<and> CHR ''.'' \<in> set l
      then (case first_email_part (split_ws l) of
              Some e \<Rightarrow> Some e
            | None \<Rightarrow> parse_lines ls)
      else parse_lines ls)"

definition parse_email_from_output :: "string \<Rightarrow> string option" where
  "parse_email_from_output output = parse_lines (splitlines output)"

definition log_call ::
  "world \<Rightarrow> real \<Rightarrow> string \<Rightarrow> string option \<Rightarrow> bool \<Rightarrow> bool \<Rightarrow> world" where
  "log_call w t p label spawned ok =
     w\<lparr>gen_log := gen_log w @
         [\<lparr>c_time = t, c_profile = p, c_label = label, c_tool_run = spawned,
           c_success = ok\<rparr>]\<rparr>"

text \<open>
  \<open>generate_email\<close>. No session, a falsy session or a session without cookies gives
  \<open>(False, None)\<close> before anything is run; a truthy JSON value that is not a dict makes
  \<open>session.get\<close> raise AttributeError, outside the \<open>try\<close>. Inside the \<open>try\<close> every
  exception gives \<open>(False, None)\<close>; \<open>(True, email)\<close> needs return code 0 and a non-empty
  parsed address. The label is passed to the generator only when it is truthy. The
  temporary cookie file is removed again in the \<open>finally\<close> and is not part of the world.
\<close>

definition generate_email ::
  "env \<Rightarrow> world \<Rightarrow> string \<Rightarrow> string option \<Rightarrow> (exn + bool \<times> string option) \<times> world" where
  "generate_email E w p label =
     (case load_session w p of
        None \<Rightarrow> (Inr (False, None), log_call w (clock w) p label False False)
      | Some Unreadable \<Rightarrow> (Inr (False, None), log_call w (clock w) p label False False)
      | Some (OtherJson truthy) \<Rightarrow>
          (if truthy then Inl AttributeError else Inr (False, None),
           log_call w (clock w) p label False False)
      | Some (SessionJson s) \<Rightarrow>
          if cookies s = [] then (Inr (False, None), log_call w (clock w) p label False False)
          else
            (case tool E w (cookies s)
                    (case label of None \<Rightarrow> None | Some l \<Rightarrow> if l = [] then None else Some l) of
               (dt, TempFileFails) \<Rightarrow>
                 (Inr (False, None), log_call (w\<lparr>clock := clock w + dt\<rparr>) (clock w) p label False False)
             | (dt, RunFails) \<Rightarrow>
                 (Inr (False, None), log_call (w\<lparr>clock := clock w + dt\<rparr>) (clock w) p label False False)
             | (dt, Exit rc out) \<Rightarrow>
                 (if rc = 0 then
                    (case parse_email_from_output (strip out) of
                       None \<Rightarrow>
                         (Inr (False, None),
                          log_call (w\<lparr>clock := clock w + dt\<rparr>) (clock w) p label True False)
                     | Some e \<Rightarrow>
                         if e = [] then
                           (Inr (False, None),
                            log_call (w\<lparr>clock := clock w + dt\<rparr>) (clock w) p label True False)
                         else
                           (Inr (True, Some e),
                            log_call (w\<lparr>clock := clock w + dt\<rparr>) (clock w) p label True True))
                  else
                    (Inr (False, None),
                     log_call (w\<lparr>clock := clock w + dt\<rparr>) (clock w) p label True False))))"

text \<open>The label of call \<open>i\<close>: \<open>f"{label_prefix}{int(time.time())}_{i}"\<close>.\<close>

definition make_label :: "string \<Rightarrow> real \<Rightarrow> nat \<Rightarrow> string" where
  "make_label pre t i = pre @ str_int (py_int t) @ ''_'' @ str_int (int i)"

text \<open>
  The inner loop of \<open>generate_batch\<close>, \<open>for i in range(count_per_profile)\<close>, over the
  indices still to run, with the emails appended so far. It has no \<open>break\<close>: after a
  failed call it goes on with the next index. \<open>time.sleep(2)\<close> follows every call but the
  last.
\<close>

fun gen_loop ::
  "env \<Rightarrow> string \<Rightarrow> string \<Rightarrow> int \<Rightarrow> nat list \<Rightarrow> string list \<Rightarrow> world
     \<Rightarrow> (exn + string list) \<times> world" where
  "gen_loop E p pre n [] acc w = (Inr acc, w)"
| "gen_loop E p pre n (i # is) acc w =
     (case generate_email E w p (Some (make_label pre (clock w) i)) of
        (Inl e, w1) \<Rightarrow> (Inl e, w1)
      | (Inr (success, email), w1) \<Rightarrow>
          gen_loop E p pre n is
            (case email of
               None \<Rightarrow> acc
             | Some e \<Rightarrow> if success \<and> e \<noteq> [] then acc @ [e] else acc)
            (if int i < n - 1 then w1\<lparr>clock := clock w1 + 2\<rparr> else w1))"

text \<open>
  The outer loop, \<open>for profile_id in profile_ids\<close>: \<open>results[profile_id] = []\<close>, then the
  inner loop (\<open>range\<close> raises TypeError when the count is not an int), whose emails end
  up in \<open>results[profile_id]\<close>. \<open>results\<close> is a dict: assigning to a key that is already
  there replaces its value.
\<close>

fun batch_loop ::
  "env \<Rightarrow> jval \<Rightarrow> string \<Rightarrow> string list \<Rightarrow> (string \<times> string list) list \<Rightarrow> world
     \<Rightarrow> (exn + (string \<times> string list) list) \<times> world" where
  "batch_loop E cnt pre [] res w = (Inr res, w)"
| "batch_loop E cnt pre (p # ps) res w =
     (case py_range cnt of
        None \<Rightarrow> (Inl TypeError, w)
      | Some n \<Rightarrow>
          (case gen_loop E p pre n [0..<nat n] [] w of
             (Inl e, w1) \<Rightarrow> (Inl e, w1)
           | (Inr emails, w1) \<Rightarrow>
               batch_loop E cnt pre ps (AList.update p emails (AList.update p [] res)) w1))"

definition generate_batch ::
  "env \<Rightarrow> world \<Rightarrow> string list \<Rightarrow> jval \<Rightarrow> string
     \<Rightarrow> (exn + (string \<times> string list) list) \<times> world" where
  "generate_batch E w profile_ids count_per_profile label_prefix =
     batch_loop E count_per_profile label_prefix profile_ids [] w"

text \<open>The calls a run added to the log, and how many of a list of calls are for a profile.\<close>

definition new_calls :: "world \<Rightarrow> world \<Rightarrow> gen_call list" where
  "new_calls w w' = drop (length (gen_log w)) (gen_log w')"

definition calls_for :: "string \<Rightarrow> gen_call list \<Rightarrow> gen_call list" where
  "calls_for p cs = filter (\<lambda>c. c_profile c = p) cs"

section \<open>The cookie extractor: extract_all_profiles_cookies\<close>

text \<open>
  \<open>extract_cookies_from_profile\<close> returns \<open>{}\<close> for a profile without a path; what it
  reads from the browser otherwise is the environment's \<open>cookie_store\<close>.
\<close>

definition extract_cookies_from_profile :: "env \<Rightarrow> world \<Rightarrow> profile \<Rightarrow> exn + cookies" where
  "extract_cookies_from_profile E w pr =
     (case path pr of
        None \<Rightarrow> Inr []
      | Some pa \<Rightarrow> if pa = [] then Inr [] else cookie_store E w pa)"

text \<open>
  The loop of \<open>extract_all_profiles_cookies\<close> over the profiles still to visit, with
  \<open>all_cookies\<close> so far. A profile without an id is skipped; a profile whose extraction
  gives no cookies is neither entered in \<open>all_cookies\<close> nor saved; the result of
  \<open>save_session\<close> is ignored.
\<close>

fun extract_loop ::
  "env \<Rightarrow> profile list \<Rightarrow> (string \<times> cookies) list \<Rightarrow> world
     \<Rightarrow> (exn + (string \<times> cookies) list) \<times> world" where
  "extract_loop E [] acc w = (Inr acc, w)"
| "extract_loop E (pr # prs) acc w =
     (case pid pr of
        None \<Rightarrow> extract_loop E prs acc w
      | Some i \<Rightarrow>
          if i = [] then extract_loop E prs acc w
          else
            (case extract_cookies_from_profile E w pr of
               Inl e \<Rightarrow> (Inl e, w)
             | Inr cs \<Rightarrow>
                 if cs = [] then extract_loop E prs acc w
                 else extract_loop E prs (AList.update i cs acc) (snd (save_session E w i cs))))"

section \<open>The scheduler\<close>

text \<open>
  config.json as both classes load it: the profiles and the two settings, each absent
  (\<open>config.get\<close> then takes the default) or any scalar.
\<close>

record config =
  profiles :: "profile list"
  email_limit_per_hour :: "jval option"
  refresh_interval_minutes :: "jval option"

definition extract_all_profiles_cookies ::
  "env \<Rightarrow> world \<Rightarrow> config \<Rightarrow> (exn + (string \<times> cookies) list) \<times> world" where
  "extract_all_profiles_cookies E w c = extract_loop E (profiles c) [] w"

datatype job = ExtractJob | GenerateJob

text \<open>
  The attributes of a \<open>TaskScheduler\<close>. \<open>scheduler_thread\<close> is None or a thread, with
  whether it is alive; \<open>scheduled_jobs\<close> are the jobs registered with the \<open>schedule\<close>
  library, each with the interval it was given. The two dictionaries of \<open>stats\<close> are
  \<open>emails_generated\<close> and \<open>extraction_counts\<close>.
\<close>

record scheduler =
  cfg :: config
  running :: bool
  scheduler_thread :: "bool option"
  last_extraction :: "real option"
  next_scheduled :: "pyfloat option"
  emails_generated :: "(string \<times> int) list"
  extraction_counts :: "(string \<times> int) list"
  scheduled_jobs :: "(job \<times> jval) list"

text \<open>\<open>[p.get("id") for p in profiles if p.get("id")]\<close>.\<close>

definition profile_ids :: "config \<Rightarrow> string list" where
  "profile_ids c =
     concat (map (\<lambda>pr. case pid pr of None \<Rightarrow> [] | Some i \<Rightarrow> if i = [] then [] else [i])
                 (profiles c))"

text \<open>\<open>__init__\<close>: both counters of every profile with an id start at 0.\<close>

definition new_scheduler :: "config \<Rightarrow> scheduler" where
  "new_scheduler c =
     \<lparr>cfg = c, running = False, scheduler_thread = None, last_extraction = None,
      next_scheduled = None,
      emails_generated = foldl (\<lambda>st i. AList.update i 0 st) [] (profile_ids c),
      extraction_counts = foldl (\<lambda>st i. AList.update i 0 st) [] (profile_ids c),
      scheduled_jobs = []\<rparr>"

text \<open>\<open>if k in stats: stats[k] += d\<close>.\<close>

definition bump :: "string \<Rightarrow> int \<Rightarrow> (string \<times> int) list \<Rightarrow> (string \<times> int) list" where
  "bump k d st = (case map_of st k of None \<Rightarrow> st | Some v \<Rightarrow> AList.update k (v + d) st)"

definition setting :: "jval option \<Rightarrow> jval \<Rightarrow> jval" where
  "setting v dflt = (case v of None \<Rightarrow> dflt | Some x \<Rightarrow> x)"

text \<open>
  \<open>extract_cookies_job\<close>: \<open>last_extraction\<close> is set first; then, in a \<open>try\<close>, the extraction
  runs and the count of every profile in the returned dictionary goes up by one. An
  exception gives \<open>{}\<close>.
\<close>

definition extract_cookies_job ::
  "env \<Rightarrow> scheduler \<Rightarrow> world \<Rightarrow> (exn + (string \<times> cookies) list) \<times> scheduler \<times> world" where
  "extract_cookies_job E S w =
     (case extract_all_profiles_cookies E w (cfg S) of
        (Inl e, w1) \<Rightarrow> (Inr [], S\<lparr>last_extraction := Some (clock w)\<rparr>, w1)
      | (Inr cs, w1) \<Rightarrow>
          (Inr cs,
           S\<lparr>last_extraction := Some (clock w),
             extraction_counts := foldl (\<lambda>st k. bump k 1 st) (extraction_counts S) (map fst cs)\<rparr>,
           w1))"


text \<open>
  \<open>schedule_jobs\<close>: registers both jobs with the \<open>schedule\<close> library (when the library
  raises for the interval, nothing is registered), then sets \<open>next_scheduled\<close> to now plus
  the interval; when that sum raises, the jobs stay registered.
\<close>

definition schedule_jobs :: "env \<Rightarrow> scheduler \<Rightarrow> world \<Rightarrow> (exn + unit) \<times> scheduler" where
  "schedule_jobs E S w =
     (case schedule_every E (setting (refresh_interval_minutes (cfg S)) (JInt 60)) of
        Some e \<Rightarrow> (Inl e, S)
      | None \<Rightarrow>
          (case next_time (clock w) (setting (refresh_interval_minutes (cfg S)) (JInt 60)) of
             Inl e \<Rightarrow>
               (Inl e,
                S\<lparr>scheduled_jobs := scheduled_jobs S @
                    [(ExtractJob, setting (refresh_interval_minutes (cfg S)) (JInt 60)),
                     (GenerateJob, setting (refresh_interval_minutes (cfg S)) (JInt 60))]\<rparr>)
           | Inr f \<Rightarrow>
               (Inr (),
                S\<lparr>scheduled_jobs := scheduled_jobs S @
                    [(ExtractJob, setting (refresh_interval_minutes (cfg S)) (JInt 60)),
                     (GenerateJob, setting (refresh_interval_minutes (cfg S)) (JInt 60))],
                  next_scheduled := Some f\<rparr>)))"


text \<open>
  \<open>start\<close>: False when there is a thread and it is alive; otherwise the jobs are
  scheduled, one extraction runs, and the thread is created and started.
\<close>

definition start :: "env \<Rightarrow> scheduler \<Rightarrow> world \<Rightarrow> (exn + bool) \<times> scheduler \<times> world" where
  "start E S w =
     (if scheduler_thread S = Some True then (Inr False, S, w)
      else
        (case schedule_jobs E S w of
           (Inl e, S1) \<Rightarrow> (Inl e, S1, w)
         | (Inr u, S1) \<Rightarrow>
             (case extract_cookies_job E S1 w of
                (Inl e, S2, w2) \<Rightarrow> (Inl e, S2, w2)
              | (Inr cs, S2, w2) \<Rightarrow> (Inr True, S2\<lparr>scheduler_thread := Some True\<rparr>, w2))))"

text \<open>
  \<open>stop\<close>: False when \<open>running\<close> is false; otherwise \<open>running\<close> is cleared and the thread
  joined for at most five seconds.
\<close>

definition stop :: "env \<Rightarrow> scheduler \<Rightarrow> world \<Rightarrow> bool \<times> scheduler" where
  "stop E S w =
     (if \<not> running S then (False, S)
      else
        (True,
         S\<lparr>running := False,
           scheduler_thread :=
             (case scheduler_thread S of
                None \<Rightarrow> None
              | Some alive \<Rightarrow> Some (alive \<and> \<not> thread_exits E w))\<rparr>))"







section \<open>Notions used to state the properties\<close>

text \<open>A call of \<open>generate_email\<close> succeeded when it returned \<open>(True, email)\<close>.\<close>

definition succeeded :: "(exn + bool \<times> string option) \<Rightarrow> bool" where
  "succeeded r = (\<exists>e. e \<noteq> [] \<and> r = Inr (True, Some e))"

text \<open>The text of a label after its last underscore: the call index it was built from.\<close>

definition label_index :: "string \<Rightarrow> string" where
  "label_index l = rev (takeWhile (\<lambda>c. c \<noteq> CHR ''_'') (rev l))"

text \<open>
  \<open>REQUIRED_COOKIES\<close> of extract_cookies.py, and a cookie dictionary that has them all.
\<close>

definition REQUIRED_COOKIES :: "string list" where
  "REQUIRED_COOKIES =
     [''X-APPLE-WEBAUTH-HSA-TRUST'', ''X-APPLE-ID-SESSION-ID'', ''X-APPLE-WEBAUTH-USER'',
      ''dsid'', ''scnt'', ''X-APPLE-ID-TOKEN'']"

definition complete :: "cookies \<Rightarrow> bool" where
  "complete cs = list_all (\<lambda>name. name \<in> set (map fst cs)) REQUIRED_COOKIES"



subsection \<open>Concrete worlds and environments\<close>

definition full_cookies :: cookies where
  "full_cookies =
     [(''X-APPLE-WEBAUTH-HSA-TRUST'', ''t''), (''X-APPLE-ID-SESSION-ID'', ''s''),
      (''X-APPLE-WEBAUTH-USER'', ''u''), (''dsid'', ''1''), (''scnt'', ''c''),
      (''X-APPLE-ID-TOKEN'', ''k'')]"

text \<open>
  An environment in which the browser of profile A (path \<open>/chrome/A\<close>) holds all cookies
  and every other extraction finds none, every write succeeds, the generator answers
  after a quarter of a second with a new address, the \<open>schedule\<close> library registers a job
  for a number of minutes below four thousand million in magnitude (the next run then
  falls before the year 9999) and raises otherwise, and \<open>datetime.fromtimestamp\<close> accepts
  the timestamps of the years 1 to 9999 and raises ValueError, or OverflowError past the
  range of \<open>time_t\<close>, for the others.
\<close>

fun every_minutes :: "jval \<Rightarrow> exn option" where
  "every_minutes (JInt n) = (if \<bar>n\<bar> < 4000000000 then None else Some OverflowError)"
| "every_minutes (JBool b) = None"
| "every_minutes (JFloat (Fin r)) = (if \<bar>r\<bar> < 4000000000 then None else Some OverflowError)"
| "every_minutes (JFloat PInf) = Some OverflowError"
| "every_minutes (JFloat NInf) = Some OverflowError"
| "every_minutes (JFloat NaN) = Some ValueError"
| "every_minutes JNull = Some TypeError"
| "every_minutes (JStr s) = Some TypeError"
| "every_minutes JOther = Some TypeError"

definition env_gen :: env where
  "env_gen =
     \<lparr>cookie_store = (\<lambda>w pa. if pa = ''/chrome/A'' then Inr full_cookies else Inr []),
      disk = (\<lambda>w p. WriteOk),
      tool = (\<lambda>w cs l. (1 / 4, Exit 0 ''Generated email: a@icloud.com'')),
      thread_exits = (\<lambda>w. True),
      schedule_every = every_minutes,
      fromtimestamp =
        (\<lambda>t. if - 62135596800 \<le> t \<and> t < 253402300800 then None
             else if \<bar>t\<bar> < 2 ^ 63 then Some ValueError else Some OverflowError)\<rparr>"

text \<open>The generator fails (exit code 1) on the first call of a run and works afterwards.\<close>

definition env_flaky :: env where
  "env_flaky =
     env_gen\<lparr>tool := (\<lambda>w cs l. if gen_log w = [] then (1 / 4, Exit 1 [])
                              else (1 / 4, Exit 0 ''Generated email: a@icloud.com''))\<rparr>"

text \<open>The generator works on the first call of a run and fails afterwards.\<close>

definition env_once :: env where
  "env_once =
     env_gen\<lparr>tool := (\<lambda>w cs l. if gen_log w = [] then (1 / 4, Exit 0 ''Generated email: a@icloud.com'')
                              else (1 / 4, Exit 1 []))\<rparr>"

text \<open>A world at time 1000 with complete sessions cached for profiles A and B.\<close>

definition world_AB :: world where
  "world_AB =
     \<lparr>clock = 1000,
      session_files =
        [''A'' \<mapsto> SessionJson \<lparr>cookies = full_cookies, profile_id = ''A'', timestamp = 990\<rparr>,
         ''B'' \<mapsto> SessionJson \<lparr>cookies = full_cookies, profile_id = ''B'', timestamp = 990\<rparr>],
      gen_log = []\<rparr>"

text \<open>A world at time 1000 with no session file.\<close>

definition world0 :: world where
  "world0 = \<lparr>clock = 1000, session_files = Map.empty, gen_log = []\<rparr>"

text \<open>
  The scenario of the specification: profiles A and B, three addresses per cycle, a
  cycle every minute. With \<open>env_gen\<close> the extraction of A succeeds and that of B finds
  nothing. The second configuration gives the interval as the string "60".
\<close>

definition cfg2 :: config where
  "cfg2 =
     \<lparr>profiles = [\<lparr>pid = Some ''A'', path = Some ''/chrome/A''\<rparr>,
                  \<lparr>pid = Some ''B'', path = Some ''/chrome/B''\<rparr>],
      email_limit_per_hour = Some (JInt 3),
      refresh_interval_minutes = Some (JInt 1)\<rparr>"







section \<open>Decimal rendering\<close>

lemma of_char_digit_char: "d < 10 \<Longrightarrow> (of_char (digit_char d) :: nat) = 48 + d"
  by (simp add: digit_char_def)

lemma digit_char_inj:
  assumes "a < 10" and "b < 10" and "digit_char a = digit_char b"
  shows "a = b"
proof -
  have "(of_char (digit_char a) :: nat) = of_char (digit_char b)"
    by (simp only: assms(3))
  then have "48 + a = 48 + b"
    by (simp only: of_char_digit_char [OF assms(1)] of_char_digit_char [OF assms(2)])
  then show ?thesis by simp
qed

lemma digit_char_not_underscore:
  assumes "d < 10"
  shows "digit_char d \<noteq> CHR ''_''"
proof
  assume "digit_char d = CHR ''_''"
  then have "(of_char (digit_char d) :: nat) = of_char (CHR ''_'')"
    by (simp only:)
  then have "48 + d = (of_char (CHR ''_'') :: nat)"
    by (simp only: of_char_digit_char [OF assms])
  also have "\<dots> = 95" by simp
  finally show False using assms by simp
qed

lemma str_nat_small: "n < 10 \<Longrightarrow> str_nat n = [digit_char n]"
  by (subst str_nat.simps) simp

lemma str_nat_big: "\<not> n < 10 \<Longrightarrow> str_nat n = str_nat (n div 10) @ [digit_char (n mod 10)]"
  by (subst str_nat.simps) simp

lemma str_nat_nonempty: "str_nat n \<noteq> []"
  by (cases "n < 10") (simp_all add: str_nat_small str_nat_big)

lemma str_nat_no_underscore: "CHR ''_'' \<notin> set (str_nat n)"
proof (induction n rule: str_nat.induct)
  case (1 n)
  show ?case
  proof (cases "n < 10")
    case True
    then show ?thesis
      using digit_char_not_underscore [of n] by (simp add: str_nat_small)
  next
    case False
    have "digit_char (n mod 10) \<noteq> CHR ''_''"
      by (rule digit_char_not_underscore) simp
    with False 1 show ?thesis by (simp add: str_nat_big)
  qed
qed

lemma str_nat_inj: "str_nat m = str_nat n \<Longrightarrow> m = n"
proof (induction m arbitrary: n rule: str_nat.induct)
  case (1 m)
  show ?case
  proof (cases "m < 10")
    case True
    note m = this
    show ?thesis
    proof (cases "n < 10")
      case True
      from 1(2) have "digit_char m = digit_char n"
        by (simp add: str_nat_small [OF m] str_nat_small [OF True])
      then show ?thesis by (rule digit_char_inj [OF m True])
    next
      case False
      from 1(2) have "[digit_char m] = str_nat (n div 10) @ [digit_char (n mod 10)]"
        by (simp add: str_nat_small [OF m] str_nat_big [OF False])
      then have "str_nat (n div 10) = []" by (simp add: Cons_eq_append_conv)
      then show ?thesis using str_nat_nonempty by blast
    qed
  next
    case False
    note m = this
    show ?thesis
    proof (cases "n < 10")
      case True
      from 1(2) have "str_nat (m div 10) @ [digit_char (m mod 10)] = [digit_char n]"
        by (simp add: str_nat_small [OF True] str_nat_big [OF m])
      then have "str_nat (m div 10) = []" by (simp add: append_eq_Cons_conv)
      then show ?thesis using str_nat_nonempty by blast
    next
      case False
      from 1(2) have "str_nat (m div 10) @ [digit_char (m mod 10)]
                    = str_nat (n div 10) @ [digit_char (n mod 10)]"
        by (simp add: str_nat_big [OF m] str_nat_big [OF False])
      then have eq: "str_nat (m div 10) = str_nat (n div 10)"
        and d: "digit_char (m mod 10) = digit_char (n mod 10)"
        by simp_all
      from 1(1) [OF m eq] have q: "m div 10 = n div 10" .
      have r: "m mod 10 = n mod 10"
        by (rule digit_char_inj [OF _ _ d]) simp_all
      have "m = 10 * (m div 10) + m mod 10" by simp
      also have "\<dots> = 10 * (n div 10) + n mod 10" by (simp only: q r)
      also have "\<dots> = n" by simp
      finally show ?thesis .
    qed
  qed
qed

lemma digit_char_not_minus:
  assumes "d < 10"
  shows "digit_char d \<noteq> CHR ''-''"
proof
  assume "digit_char d = CHR ''-''"
  then have "(of_char (digit_char d) :: nat) = of_char (CHR ''-'')"
    by (simp only:)
  then have "48 + d = (of_char (CHR ''-'') :: nat)"
    by (simp only: of_char_digit_char [OF assms])
  also have "\<dots> = 45" by simp
  finally show False by simp
qed

lemma str_nat_no_minus: "CHR ''-'' \<notin> set (str_nat n)"
proof (induction n rule: str_nat.induct)
  case (1 n)
  show ?case
  proof (cases "n < 10")
    case True
    then show ?thesis
      using digit_char_not_minus [of n] by (simp add: str_nat_small)
  next
    case False
    have "digit_char (n mod 10) \<noteq> CHR ''-''"
      by (rule digit_char_not_minus) simp
    with False 1 show ?thesis by (simp add: str_nat_big)
  qed
qed

lemma str_int_no_underscore: "CHR ''_'' \<notin> set (str_int a)"
  using str_nat_no_underscore by (simp add: str_int_def)

lemma str_int_inj:
  assumes "str_int a = str_int b"
  shows "a = b"
proof (cases "a < 0")
  case True
  note a = this
  show ?thesis
  proof (cases "b < 0")
    case True
    with a assms have "str_nat (nat (- a)) = str_nat (nat (- b))"
      by (simp add: str_int_def)
    then have "nat (- a) = nat (- b)" by (rule str_nat_inj)
    with a True show ?thesis by simp
  next
    case False
    with a assms have "CHR ''-'' # str_nat (nat (- a)) = str_nat (nat b)"
      by (simp add: str_int_def)
    then have "CHR ''-'' \<in> set (str_nat (nat b))"
      by (metis list.set_intros(1))
    with str_nat_no_minus show ?thesis by blast
  qed
next
  case False
  note a = this
  show ?thesis
  proof (cases "b < 0")
    case True
    with a assms have "str_nat (nat a) = CHR ''-'' # str_nat (nat (- b))"
      by (simp add: str_int_def)
    then have "CHR ''-'' \<in> set (str_nat (nat a))"
      by (metis list.set_intros(1))
    with str_nat_no_minus show ?thesis by blast
  next
    case False
    with a assms have "str_nat (nat a) = str_nat (nat b)"
      by (simp add: str_int_def)
    then have "nat a = nat b" by (rule str_nat_inj)
    with a False show ?thesis by simp
  qed
qed

section \<open>Facts about the generator client\<close>

lemma generate_email_log:
  "\<exists>t. gen_log (snd (generate_email E w p l)) =
         gen_log w @ [\<lparr>c_time = clock w, c_profile = p, c_label = l, c_tool_run = t,
                       c_success = succeeded (fst (generate_email E w p l))\<rparr>]"
  by (auto simp: generate_email_def log_call_def succeeded_def
           split: option.splits file_content.splits proc.splits prod.splits)

lemma generate_email_files:
  "session_files (snd (generate_email E w p l)) = session_files w"
  by (auto simp: generate_email_def log_call_def
           split: option.splits file_content.splits proc.splits prod.splits)

lemma generate_email_result:
  "fst (generate_email E w p l) = Inr (s, em) \<Longrightarrow>
     (s \<and> (\<exists>e. em = Some e \<and> e \<noteq> [])) \<or> (\<not> s \<and> em = None)"
  by (auto simp: generate_email_def log_call_def
           split: option.splits file_content.splits proc.splits prod.splits if_splits)
     metis+

lemma gen_loop_shape:
  assumes "gen_loop E p pre n is acc w = (r, w')"
  shows "\<exists>cs. gen_log w' = gen_log w @ cs \<and> session_files w' = session_files w
           \<and> length cs \<le> length is
           \<and> (\<forall>c \<in> set cs. c_profile c = p)
           \<and> (\<forall>acc'. r = Inr acc' \<longrightarrow>
                  length cs = length is
                \<and> (\<exists>es. acc' = acc @ es \<and> length es = length (filter c_success cs)))"
  using assms
proof (induction "is" arbitrary: acc w)
  case Nil
  then show ?case by auto
next
  case (Cons i "is")
  let ?l = "Some (make_label pre (clock w) i)"
  obtain r1 w1 where g: "generate_email E w p ?l = (r1, w1)"
    by (cases "generate_email E w p ?l")
  obtain t where lg: "gen_log w1 = gen_log w @
      [\<lparr>c_time = clock w, c_profile = p, c_label = ?l, c_tool_run = t, c_success = succeeded r1\<rparr>]"
    using generate_email_log [of E w p ?l] g by auto
  have fs: "session_files w1 = session_files w"
    using generate_email_files [of E w p ?l] g by simp
  let ?c = "\<lparr>c_time = clock w, c_profile = p, c_label = ?l, c_tool_run = t, c_success = succeeded r1\<rparr>"
  show ?case
  proof (cases r1)
    case (Inl e)
    with Cons.prems g have "r = Inl e" "w' = w1" by auto
    with lg fs show ?thesis by (intro exI [of _ "[?c]"]) simp
  next
    case (Inr v)
    obtain s em where v: "v = (s, em)" by (cases v)
    let ?acc = "(case em of None \<Rightarrow> acc | Some e \<Rightarrow> if s \<and> e \<noteq> [] then acc @ [e] else acc)"
    let ?w2 = "(if int i < n - 1 then w1\<lparr>clock := clock w1 + 2\<rparr> else w1)"
    from Cons.prems g Inr v have rec: "gen_loop E p pre n is ?acc ?w2 = (r, w')" by simp
    from Cons.IH [OF rec] obtain cs where
      cs: "gen_log w' = gen_log ?w2 @ cs" "session_files w' = session_files ?w2"
          "length cs \<le> length is" "\<forall>c \<in> set cs. c_profile c = p"
          "\<forall>acc'. r = Inr acc' \<longrightarrow> length cs = length is
             \<and> (\<exists>es. acc' = ?acc @ es \<and> length es = length (filter c_success cs))"
      by blast
    have w2: "gen_log ?w2 = gen_log w1" "session_files ?w2 = session_files w1" by simp_all
    have accs: "\<exists>es0. ?acc = acc @ es0 \<and> length es0 = (if succeeded r1 then 1 else 0)"
      using generate_email_result [of E w p ?l s em] g Inr v
      by (auto simp: succeeded_def)
    then obtain es0 where es0: "?acc = acc @ es0" "length es0 = (if succeeded r1 then 1 else 0)"
      by blast
    have "\<forall>acc'. r = Inr acc' \<longrightarrow> length (?c # cs) = length (i # is)
             \<and> (\<exists>es. acc' = acc @ es \<and> length es = length (filter c_success (?c # cs)))"
    proof (intro allI impI)
      fix acc' assume "r = Inr acc'"
      with cs(5) obtain es where "length cs = length is" "acc' = ?acc @ es"
          "length es = length (filter c_success cs)" by blast
      then show "length (?c # cs) = length (i # is)
             \<and> (\<exists>es. acc' = acc @ es \<and> length es = length (filter c_success (?c # cs)))"
        using es0 by (intro conjI exI [of _ "es0 @ es"]) auto
    qed
    with cs w2 lg fs show ?thesis
      by (intro exI [of _ "?c # cs"]) simp
  qed
qed

lemma calls_for_append: "calls_for p (xs @ ys) = calls_for p xs @ calls_for p ys"
  by (simp add: calls_for_def)

lemma calls_for_same: "\<forall>c \<in> set cs. c_profile c = p \<Longrightarrow> calls_for q cs = (if q = p then cs else [])"
  by (induction cs) (auto simp: calls_for_def)

lemma new_calls_append: "gen_log w' = gen_log w @ cs \<Longrightarrow> new_calls w w' = cs"
  by (simp add: new_calls_def)

lemma batch_loop_calls:
  assumes "batch_loop E cnt pre ids res w = (r, w')" and "py_range cnt = Some n"
  shows "\<exists>cs. gen_log w' = gen_log w @ cs \<and> session_files w' = session_files w
           \<and> (\<forall>p. length (calls_for p cs) \<le> nat n * count_list ids p)
           \<and> (\<forall>res'. r = Inr res' \<longrightarrow>
                  (\<forall>p. length (calls_for p cs) = nat n * count_list ids p)
                \<and> (\<forall>p. p \<notin> set ids \<longrightarrow> map_of res' p = map_of res p)
                \<and> (distinct (map fst res) \<longrightarrow> distinct (map fst res')))"
  using assms(1)
proof (induction ids arbitrary: res w)
  case Nil
  then show ?case by (auto simp: calls_for_def)
next
  case (Cons q ids)
  obtain r1 w1 where g: "gen_loop E q pre n [0..<nat n] [] w = (r1, w1)"
    by (cases "gen_loop E q pre n [0..<nat n] [] w")
  from gen_loop_shape [OF g] obtain cs1 where
    cs1: "gen_log w1 = gen_log w @ cs1" "session_files w1 = session_files w"
         "length cs1 \<le> nat n" "\<forall>c \<in> set cs1. c_profile c = q"
         "\<forall>acc'. r1 = Inr acc' \<longrightarrow> length cs1 = nat n"
    by auto
  note cf = calls_for_same [OF cs1(4)]
  show ?case
  proof (cases r1)
    case (Inl e)
    with Cons.prems g assms(2) have "r = Inl e" "w' = w1" by auto
    with cs1 cf show ?thesis
      by (intro exI [of _ cs1]) auto
  next
    case (Inr es)
    let ?res = "AList.update q es (AList.update q [] res)"
    from Cons.prems g assms(2) Inr have rec: "batch_loop E cnt pre ids ?res w1 = (r, w')"
      by simp
    from Cons.IH [OF rec] obtain cs where
      cs: "gen_log w' = gen_log w1 @ cs" "session_files w' = session_files w1"
          "\<forall>p. length (calls_for p cs) \<le> nat n * count_list ids p"
          "\<forall>res'. r = Inr res' \<longrightarrow>
                  (\<forall>p. length (calls_for p cs) = nat n * count_list ids p)
                \<and> (\<forall>p. p \<notin> set ids \<longrightarrow> map_of res' p = map_of ?res p)
                \<and> (distinct (map fst ?res) \<longrightarrow> distinct (map fst res'))"
      by blast
    from cs1(5) Inr have len1: "length cs1 = nat n" by simp
    have a: "gen_log w' = gen_log w @ (cs1 @ cs)" using cs(1) cs1(1) by simp
    have b: "session_files w' = session_files w" using cs(2) cs1(2) by simp
    have c: "\<forall>p. length (calls_for p (cs1 @ cs)) \<le> nat n * count_list (q # ids) p"
    proof
      fix p
      from cs(3) have "length (calls_for p cs) \<le> nat n * count_list ids p" by simp
      then show "length (calls_for p (cs1 @ cs)) \<le> nat n * count_list (q # ids) p"
        by (simp add: calls_for_append cf len1 algebra_simps)
    qed
    have d: "\<forall>res'. r = Inr res' \<longrightarrow>
                  (\<forall>p. length (calls_for p (cs1 @ cs)) = nat n * count_list (q # ids) p)
                \<and> (\<forall>p. p \<notin> set (q # ids) \<longrightarrow> map_of res' p = map_of res p)
                \<and> (distinct (map fst res) \<longrightarrow> distinct (map fst res'))"
    proof (intro allI impI)
      fix res' assume r: "r = Inr res'"
      from cs(4) r have
        e1: "\<forall>p. length (calls_for p cs) = nat n * count_list ids p" and
        e2: "\<forall>p. p \<notin> set ids \<longrightarrow> map_of res' p = map_of ?res p" and
        e3: "distinct (map fst ?res) \<longrightarrow> distinct (map fst res')"
        by blast+
      have "\<forall>p. length (calls_for p (cs1 @ cs)) = nat n * count_list (q # ids) p"
        using e1 by (simp add: calls_for_append cf len1 algebra_simps)
      moreover have "\<forall>p. p \<notin> set (q # ids) \<longrightarrow> map_of res' p = map_of res p"
        using e2 by (simp add: update_conv')
      moreover have "distinct (map fst res) \<longrightarrow> distinct (map fst res')"
        using e3 by (simp add: distinct_update)
      ultimately show "(\<forall>p. length (calls_for p (cs1 @ cs)) = nat n * count_list (q # ids) p)
                \<and> (\<forall>p. p \<notin> set (q # ids) \<longrightarrow> map_of res' p = map_of res p)
                \<and> (distinct (map fst res) \<longrightarrow> distinct (map fst res'))"
        by blast
    qed
    from a b c d show ?thesis by blast
  qed
qed

lemma takeWhile_stop: "\<forall>x \<in> set xs. P x \<Longrightarrow> \<not> P y \<Longrightarrow> takeWhile P (xs @ y # ys) = xs"
  by (induction xs) auto

lemma label_index_make_label: "label_index (make_label pre t i) = str_nat i"
proof -
  have "\<forall>c \<in> set (rev (str_nat i)). c \<noteq> CHR ''_''"
    using str_nat_no_underscore [of i] by auto
  then have "takeWhile (\<lambda>c. c \<noteq> CHR ''_'')
               (rev (str_nat i) @ CHR ''_'' # (rev (str_int (py_int t)) @ rev pre))
           = rev (str_nat i)"
    by (rule takeWhile_stop) simp
  then show ?thesis
    by (simp add: label_index_def make_label_def str_int_def)
qed

lemma gen_loop_labels:
  assumes "gen_loop E p pre n is acc w = (r, w')"
  shows "map (\<lambda>c. map_option label_index (c_label c)) (new_calls w w')
       = map (\<lambda>i. Some (str_nat i)) (take (length (new_calls w w')) is)"
  using assms
proof (induction "is" arbitrary: acc w)
  case Nil
  then show ?case by (simp add: new_calls_def)
next
  case (Cons i "is")
  let ?l = "Some (make_label pre (clock w) i)"
  obtain r1 w1 where g: "generate_email E w p ?l = (r1, w1)"
    by (cases "generate_email E w p ?l")
  obtain t where lg: "gen_log w1 = gen_log w @
      [\<lparr>c_time = clock w, c_profile = p, c_label = ?l, c_tool_run = t, c_success = succeeded r1\<rparr>]"
    using generate_email_log [of E w p ?l] g by auto
  let ?c = "\<lparr>c_time = clock w, c_profile = p, c_label = ?l, c_tool_run = t, c_success = succeeded r1\<rparr>"
  show ?case
  proof (cases r1)
    case (Inl e)
    with Cons.prems g have "w' = w1" by auto
    with lg have "new_calls w w' = [?c]" by (simp add: new_calls_def)
    then show ?thesis by (simp add: label_index_make_label)
  next
    case (Inr v)
    obtain s em where v: "v = (s, em)" by (cases v)
    let ?acc = "(case em of None \<Rightarrow> acc | Some e \<Rightarrow> if s \<and> e \<noteq> [] then acc @ [e] else acc)"
    let ?w2 = "(if int i < n - 1 then w1\<lparr>clock := clock w1 + 2\<rparr> else w1)"
    from Cons.prems g Inr v have rec: "gen_loop E p pre n is ?acc ?w2 = (r, w')" by simp
    have w2: "gen_log ?w2 = gen_log w1" by simp
    from gen_loop_shape [OF rec] obtain cs where cs: "gen_log w' = gen_log ?w2 @ cs" by blast
    then have n2: "new_calls ?w2 w' = cs" by (rule new_calls_append)
    from cs w2 lg have "gen_log w' = gen_log w @ (?c # cs)" by simp
    then have n1: "new_calls w w' = ?c # cs" by (rule new_calls_append)
    from Cons.IH [OF rec] n2 have
      "map (\<lambda>c. map_option label_index (c_label c)) cs = map (\<lambda>i. Some (str_nat i)) (take (length cs) is)"
      by simp
    with n1 show ?thesis by (simp add: label_index_make_label)
  qed
qed

lemma distinct_of_map: "distinct (map f ys) \<Longrightarrow> distinct ys"
  by (simp add: distinct_map)

lemma gen_loop_labels_distinct:
  assumes "gen_loop E p pre n is acc w = (r, w')" and "distinct is"
  shows "distinct (map c_label (new_calls w w'))"
proof -
  have inj: "inj_on (\<lambda>i. Some (str_nat i)) (set (take (length (new_calls w w')) is))"
    by (auto simp: inj_on_def dest: str_nat_inj)
  have "distinct (take (length (new_calls w w')) is)" using assms(2) by simp
  with inj have "distinct (map (\<lambda>i. Some (str_nat i)) (take (length (new_calls w w')) is))"
    by (simp add: distinct_map)
  then have "distinct (map (\<lambda>c. map_option label_index (c_label c)) (new_calls w w'))"
    by (simp only: gen_loop_labels [OF assms(1)])
  then have "distinct (map (map_option label_index) (map c_label (new_calls w w')))"
    by (simp add: comp_def)
  then show ?thesis by (rule distinct_of_map)
qed

lemma batch_loop_distinct:
  assumes "batch_loop E cnt pre ids res w = (r, w')" and "py_range cnt = Some n"
      and "distinct ids"
  shows "distinct (map c_label (calls_for p (new_calls w w')))
       \<and> (\<forall>res'. r = Inr res' \<longrightarrow> p \<in> set ids \<longrightarrow>
            (\<exists>es. map_of res' p = Some es
                \<and> length es = length (filter c_success (calls_for p (new_calls w w')))))"
  using assms(1,3)
proof (induction ids arbitrary: res w)
  case Nil
  then show ?case by (simp add: new_calls_def calls_for_def)
next
  case (Cons q ids)
  obtain r1 w1 where g: "gen_loop E q pre n [0..<nat n] [] w = (r1, w1)"
    by (cases "gen_loop E q pre n [0..<nat n] [] w")
  from gen_loop_shape [OF g] obtain cs1 where
    cs1: "gen_log w1 = gen_log w @ cs1"
         "\<forall>c \<in> set cs1. c_profile c = q"
         "\<forall>acc'. r1 = Inr acc' \<longrightarrow> (\<exists>es. acc' = [] @ es \<and> length es = length (filter c_success cs1))"
    by auto
  note cf = calls_for_same [OF cs1(2)]
  have n1: "new_calls w w1 = cs1" using cs1(1) by (rule new_calls_append)
  have dl: "distinct (map c_label cs1)"
    using gen_loop_labels_distinct [OF g] n1 by simp
  show ?case
  proof (cases r1)
    case (Inl e)
    with Cons.prems g assms(2) have "r = Inl e" "w' = w1" by auto
    with n1 cf dl show ?thesis by auto
  next
    case (Inr es)
    let ?res = "AList.update q es (AList.update q [] res)"
    from Cons.prems g assms(2) Inr have rec: "batch_loop E cnt pre ids ?res w1 = (r, w')"
      by simp
    from Cons.prems have q: "q \<notin> set ids" and di: "distinct ids" by simp_all
    from batch_loop_calls [OF rec assms(2)] obtain cs where
      cs: "gen_log w' = gen_log w1 @ cs"
          "\<forall>p. length (calls_for p cs) \<le> nat n * count_list ids p"
          "\<forall>res'. r = Inr res' \<longrightarrow> (\<forall>p. p \<notin> set ids \<longrightarrow> map_of res' p = map_of ?res p)"
      by blast
    have n2: "new_calls w1 w' = cs" using cs(1) by (rule new_calls_append)
    have "gen_log w' = gen_log w @ (cs1 @ cs)" using cs(1) cs1(1) by simp
    then have n: "new_calls w w' = cs1 @ cs" by (rule new_calls_append)
    from cs(2) q have noq: "calls_for q cs = []"
      by (metis count_list_0_iff le_zero_eq length_0_conv mult_0_right)
    note IH = Cons.IH [OF rec di, unfolded n2]
    show ?thesis
    proof (cases "p = q")
      case True
      have "calls_for p (new_calls w w') = cs1"
        using True n noq cf by (simp add: calls_for_append)
      moreover have "\<forall>res'. r = Inr res' \<longrightarrow> map_of res' q = Some es"
        using cs(3) q by (simp add: update_conv')
      moreover have "length es = length (filter c_success cs1)"
        using cs1(3) Inr by simp
      ultimately show ?thesis using dl True by simp
    next
      case False
      have "calls_for p (new_calls w w') = calls_for p cs"
        using False n cf by (simp add: calls_for_append)
      with IH False show ?thesis by simp
    qed
  qed
qed

lemma batch_loop_append:
  "batch_loop E cnt pre (xs @ ys) res w =
     (case batch_loop E cnt pre xs res w of
        (Inl e, w1) \<Rightarrow> (Inl e, w1)
      | (Inr r1, w1) \<Rightarrow> batch_loop E cnt pre ys r1 w1)"
  by (induction xs arbitrary: res w) (auto split: option.splits prod.splits sum.splits)

lemma make_label_inj:
  assumes "make_label pre t i = make_label pre t' i'"
  shows "py_int t = py_int t' \<and> i = i'"
proof -
  let ?P = "\<lambda>c. c \<noteq> CHR ''_''"
  from assms have eq: "str_int (py_int t) @ CHR ''_'' # str_nat i
                     = str_int (py_int t') @ CHR ''_'' # str_nat i'"
    by (simp add: make_label_def str_int_def)
  have a: "takeWhile ?P (str_int (py_int t) @ CHR ''_'' # str_nat i) = str_int (py_int t)"
    by (rule takeWhile_stop) (use str_int_no_underscore in auto)
  have b: "takeWhile ?P (str_int (py_int t') @ CHR ''_'' # str_nat i') = str_int (py_int t')"
    by (rule takeWhile_stop) (use str_int_no_underscore in auto)
  from eq a b have s: "str_int (py_int t) = str_int (py_int t')" by simp
  with eq have "str_nat i = str_nat i'" by simp
  then have "i = i'" by (rule str_nat_inj)
  moreover from s have "py_int t = py_int t'" by (rule str_int_inj)
  ultimately show ?thesis by simp
qed

lemma py_int_near: "x - 1 < real_of_int (py_int x) \<and> real_of_int (py_int x) < x + 1"
  unfolding py_int_def by (auto; linarith)

lemma py_int_apart:
  assumes "t + 2 \<le> t'"
  shows "py_int t \<noteq> py_int t'"
proof
  assume "py_int t = py_int t'"
  with py_int_near [of t] py_int_near [of t'] assms show False by simp
qed

lemma generate_email_clock:
  assumes "\<forall>w cs l. 0 \<le> fst (tool E w cs l)"
  shows "clock w \<le> clock (snd (generate_email E w p l))"
proof -
  have "\<And>cs l dt out. tool E w cs l = (dt, out) \<Longrightarrow> 0 \<le> dt"
    using assms by (metis fst_conv)
  then show ?thesis
    by (auto simp: generate_email_def log_call_def
           split: option.splits file_content.splits proc.splits prod.splits)
qed

lemma new_calls_trans:
  assumes "gen_log w1 = gen_log w @ cs1" and "gen_log w' = gen_log w1 @ cs2"
  shows "new_calls w w' = new_calls w w1 @ new_calls w1 w'"
  using assms by (simp add: new_calls_def)

lemma gen_loop_times:
  assumes nonneg: "\<forall>w cs l. 0 \<le> fst (tool E w cs l)"
      and "gen_loop E p pre n [k..<m] acc w = (r, w')" and m: "m = nat n"
  shows "clock w \<le> clock w'
       \<and> (\<forall>acc'. r = Inr acc' \<longrightarrow> k < m \<longrightarrow> clock w + 2 * (real m - 1 - real k) \<le> clock w')
       \<and> (\<forall>c \<in> set (new_calls w w'). \<exists>i. k \<le> i \<and> i < m
              \<and> c_label c = Some (make_label pre (c_time c) i)
              \<and> clock w + 2 * (real i - real k) \<le> c_time c
              \<and> (\<forall>acc'. r = Inr acc' \<longrightarrow> c_time c + 2 * (real m - 1 - real i) \<le> clock w'))"
  using assms(2)
proof (induction "m - k" arbitrary: k acc w)
  case 0
  then have "[k..<m] = []" by simp
  with 0 have "w' = w" by simp
  then show ?case using 0 by (simp add: new_calls_def)
next
  case (Suc d)
  then have km: "k < m" by simp
  then have upt: "[k..<m] = k # [Suc k..<m]" by (rule upt_conv_Cons)
  let ?l = "Some (make_label pre (clock w) k)"
  obtain r1 w1 where g: "generate_email E w p ?l = (r1, w1)"
    by (cases "generate_email E w p ?l")
  obtain t where lg: "gen_log w1 = gen_log w @
      [\<lparr>c_time = clock w, c_profile = p, c_label = ?l, c_tool_run = t, c_success = succeeded r1\<rparr>]"
    using generate_email_log [of E w p ?l] g by auto
  let ?c = "\<lparr>c_time = clock w, c_profile = p, c_label = ?l, c_tool_run = t, c_success = succeeded r1\<rparr>"
  have c1: "clock w \<le> clock w1"
    using generate_email_clock [OF nonneg, of w p ?l] g by simp
  show ?case
  proof (cases r1)
    case (Inl e)
    with Suc.prems g upt have r: "r = Inl e" and w': "w' = w1" by auto
    from lg have nc: "new_calls w w1 = [?c]" by (simp add: new_calls_def)
    from r w' c1 km show ?thesis by (auto simp: nc intro!: exI [of _ k])
  next
    case (Inr v)
    obtain s em where v: "v = (s, em)" by (cases v)
    let ?acc = "(case em of None \<Rightarrow> acc | Some e \<Rightarrow> if s \<and> e \<noteq> [] then acc @ [e] else acc)"
    let ?w2 = "(if int k < n - 1 then w1\<lparr>clock := clock w1 + 2\<rparr> else w1)"
    from Suc.prems g Inr v upt have rec: "gen_loop E p pre n [Suc k..<m] ?acc ?w2 = (r, w')"
      by simp
    have d: "d = m - Suc k" using Suc.hyps(2) by simp
    note IH = Suc.hyps(1) [OF d rec]
    have cond: "int k < n - 1 \<longleftrightarrow> Suc k < m" using m km by auto
    have c2: "clock ?w2 = clock w1 + (if Suc k < m then 2 else 0)"
      using cond by simp
    have lg2: "gen_log ?w2 = gen_log w1" by simp
    from gen_loop_shape [OF rec] obtain cs where cs: "gen_log w' = gen_log ?w2 @ cs" by blast
    then have n2: "new_calls ?w2 w' = cs" by (rule new_calls_append)
    from cs lg2 lg have "gen_log w' = gen_log w @ (?c # cs)" by simp
    then have nc: "new_calls w w' = ?c # new_calls ?w2 w'"
      using n2 by (simp add: new_calls_def)
    from IH have i1: "clock ?w2 \<le> clock w'" by blast
    from IH have i2: "\<forall>acc'. r = Inr acc' \<longrightarrow> Suc k < m
                        \<longrightarrow> clock ?w2 + 2 * (real m - 1 - real (Suc k)) \<le> clock w'"
      by blast
    from IH have i3: "\<forall>c \<in> set (new_calls ?w2 w'). \<exists>i. Suc k \<le> i \<and> i < m
              \<and> c_label c = Some (make_label pre (c_time c) i)
              \<and> clock ?w2 + 2 * (real i - real (Suc k)) \<le> c_time c
              \<and> (\<forall>acc'. r = Inr acc' \<longrightarrow> c_time c + 2 * (real m - 1 - real i) \<le> clock w')"
      by blast
    have a: "clock w \<le> clock w'" using c1 c2 i1 by (auto split: if_splits)
    have b: "\<forall>acc'. r = Inr acc' \<longrightarrow> k < m \<longrightarrow> clock w + 2 * (real m - 1 - real k) \<le> clock w'"
    proof (intro allI impI)
      fix acc' assume r: "r = Inr acc'"
      show "clock w + 2 * (real m - 1 - real k) \<le> clock w'"
      proof (cases "Suc k < m")
        case True
        with i2 r have "clock ?w2 + 2 * (real m - 1 - real (Suc k)) \<le> clock w'" by blast
        with c1 c2 True show ?thesis by simp
      next
        case False
        with km have "real m = real k + 1" by simp
        with a show ?thesis by simp
      qed
    qed
    have c: "\<forall>c \<in> set (new_calls w w'). \<exists>i. k \<le> i \<and> i < m
              \<and> c_label c = Some (make_label pre (c_time c) i)
              \<and> clock w + 2 * (real i - real k) \<le> c_time c
              \<and> (\<forall>acc'. r = Inr acc' \<longrightarrow> c_time c + 2 * (real m - 1 - real i) \<le> clock w')"
    proof
      fix x assume "x \<in> set (new_calls w w')"
      with nc have "x = ?c \<or> x \<in> set (new_calls ?w2 w')" by simp
      then show "\<exists>i. k \<le> i \<and> i < m
              \<and> c_label x = Some (make_label pre (c_time x) i)
              \<and> clock w + 2 * (real i - real k) \<le> c_time x
              \<and> (\<forall>acc'. r = Inr acc' \<longrightarrow> c_time x + 2 * (real m - 1 - real i) \<le> clock w')"
      proof
        assume x: "x = ?c"
        show ?thesis using km b by (intro exI [of _ k]) (simp add: x)
      next
        assume "x \<in> set (new_calls ?w2 w')"
        with i3 obtain i where i: "Suc k \<le> i" "i < m"
            "c_label x = Some (make_label pre (c_time x) i)"
            "clock ?w2 + 2 * (real i - real (Suc k)) \<le> c_time x"
            "\<forall>acc'. r = Inr acc' \<longrightarrow> c_time x + 2 * (real m - 1 - real i) \<le> clock w'"
          by blast
        from i(1,2) have "Suc k < m" by simp
        with c2 c1 have "clock w + 2 \<le> clock ?w2" by simp
        with i(4) have "clock w + 2 * (real i - real k) \<le> c_time x" by simp
        with i show ?thesis by (intro exI [of _ i]) simp
      qed
    qed
    from a b c show ?thesis by blast
  qed
qed

lemma batch_loop_labels:
  assumes nonneg: "\<forall>w cs l. 0 \<le> fst (tool E w cs l)"
      and "batch_loop E (JInt n) pre ids res w = (r, w')" and n: "2 \<le> n"
  shows "clock w \<le> clock w'
       \<and> (\<forall>c \<in> set (new_calls w w'). \<exists>i. i < nat n
              \<and> c_label c = Some (make_label pre (c_time c) i)
              \<and> clock w + 2 * real i \<le> c_time c)
       \<and> distinct (map c_label (new_calls w w'))"
  using assms(2)
proof (induction ids arbitrary: res w)
  case Nil
  then show ?case by (simp add: new_calls_def)
next
  case (Cons q ids)
  let ?m = "nat n"
  have pr: "py_range (JInt n) = Some n" by simp
  obtain r1 w1 where g: "gen_loop E q pre n [0..<?m] [] w = (r1, w1)"
    by (cases "gen_loop E q pre n [0..<?m] [] w")
  from gen_loop_times [OF nonneg g refl]
  have t1: "clock w \<le> clock w1"
    and t3: "\<forall>c \<in> set (new_calls w w1). \<exists>i. i < ?m
              \<and> c_label c = Some (make_label pre (c_time c) i)
              \<and> clock w + 2 * real i \<le> c_time c
              \<and> (\<forall>acc'. r1 = Inr acc' \<longrightarrow> c_time c + 2 * (real ?m - 1 - real i) \<le> clock w1)"
    by auto
  have d1: "distinct (map c_label (new_calls w w1))"
    by (rule gen_loop_labels_distinct [OF g]) simp
  from gen_loop_shape [OF g] obtain cs1 where cs1: "gen_log w1 = gen_log w @ cs1" by blast
  show ?case
  proof (cases r1)
    case (Inl e)
    with Cons.prems g have "r = Inl e" "w' = w1" by auto
    with t1 t3 d1 show ?thesis by blast
  next
    case (Inr es)
    let ?res = "AList.update q es (AList.update q [] res)"
    from Cons.prems g Inr have rec: "batch_loop E (JInt n) pre ids ?res w1 = (r, w')"
      by simp
    from Cons.IH [OF rec]
    have u1: "clock w1 \<le> clock w'"
      and u2: "\<forall>c \<in> set (new_calls w1 w'). \<exists>i. i < ?m
              \<and> c_label c = Some (make_label pre (c_time c) i)
              \<and> clock w1 + 2 * real i \<le> c_time c"
      and u3: "distinct (map c_label (new_calls w1 w'))"
      by blast+
    from batch_loop_calls [OF rec pr] obtain cs2 where cs2: "gen_log w' = gen_log w1 @ cs2"
      by blast
    note nc = new_calls_trans [OF cs1 cs2]
    have a: "clock w \<le> clock w'" using t1 u1 by simp
    have b: "\<forall>c \<in> set (new_calls w w'). \<exists>i. i < ?m
              \<and> c_label c = Some (make_label pre (c_time c) i)
              \<and> clock w + 2 * real i \<le> c_time c"
    proof
      fix c assume "c \<in> set (new_calls w w')"
      with nc have "c \<in> set (new_calls w w1) \<or> c \<in> set (new_calls w1 w')" by simp
      then show "\<exists>i. i < ?m \<and> c_label c = Some (make_label pre (c_time c) i)
              \<and> clock w + 2 * real i \<le> c_time c"
      proof
        assume "c \<in> set (new_calls w w1)"
        with t3 show ?thesis by blast
      next
        assume "c \<in> set (new_calls w1 w')"
        with u2 obtain i where "i < ?m" "c_label c = Some (make_label pre (c_time c) i)"
            "clock w1 + 2 * real i \<le> c_time c" by blast
        with t1 show ?thesis by (intro exI [of _ i]) simp
      qed
    qed
    have disj: "set (map c_label (new_calls w w1)) \<inter> set (map c_label (new_calls w1 w')) = {}"
    proof (rule ccontr)
      assume "set (map c_label (new_calls w w1)) \<inter> set (map c_label (new_calls w1 w')) \<noteq> {}"
      then obtain x y where x: "x \<in> set (new_calls w w1)" and y: "y \<in> set (new_calls w1 w')"
          and xy: "c_label x = c_label y" by auto
      from t3 x Inr obtain i where i: "i < ?m" "c_label x = Some (make_label pre (c_time x) i)"
          "c_time x + 2 * (real ?m - 1 - real i) \<le> clock w1" by blast
      from u2 y obtain j where j: "j < ?m" "c_label y = Some (make_label pre (c_time y) j)"
          "clock w1 + 2 * real j \<le> c_time y" by blast
      from xy i(2) j(2) have "make_label pre (c_time x) i = make_label pre (c_time y) j" by simp
      then have eq: "py_int (c_time x) = py_int (c_time y)" and ij: "i = j"
        using make_label_inj by blast+
      from n have "2 \<le> real ?m" by simp
      with i(3) j(3) ij have "c_time x + 2 \<le> c_time y" by simp
      then have "py_int (c_time x) \<noteq> py_int (c_time y)" by (rule py_int_apart)
      with eq show False by simp
    qed
    have c: "distinct (map c_label (new_calls w w'))"
      using d1 u3 disj by (simp add: nc)
    from a b c show ?thesis by blast
  qed
qed

section \<open>Facts about the scheduler\<close>

















lemma small_below_overflow: "\<bar>x\<bar> \<le> 10 ^ 12 \<Longrightarrow> \<bar>x\<bar> < overflow_bound"
proof -
  have "(10 :: real) ^ 12 < overflow_bound" by (simp add: overflow_bound_def)
  then show "\<bar>x\<bar> \<le> 10 ^ 12 \<Longrightarrow> \<bar>x\<bar> < overflow_bound" by simp
qed













section \<open>Evaluating the concrete runs\<close>

lemmas eval_defs = generate_batch_def generate_email_def load_session_def world_AB_def env_gen_def
  env_flaky_def env_once_def full_cookies_def log_call_def new_calls_def calls_for_def

lemma parse_generated:
  "parse_email_from_output (strip ''Generated email: a@icloud.com'') = Some ''a@icloud.com''"
  by (simp add: parse_email_from_output_def strip_def splitlines_def py_space_def line_break_def
        split_second_def)

lemma parse_empty: "parse_email_from_output (strip []) = None"
  by (simp add: parse_email_from_output_def strip_def splitlines_def)

lemma count_list_distinct: "distinct xs \<Longrightarrow> count_list xs p \<le> 1"
  by (induction xs) (auto simp: count_list_0_iff)

lemma str_int_1000: "str_int 1000 = ''1000''" by code_simp
lemma str_int_1002: "str_int 1002 = ''1002''" by code_simp
lemma str_int_1004: "str_int 1004 = ''1004''" by code_simp
lemma str_int_0: "str_int 0 = ''0''" by code_simp
lemma str_int_1: "str_int 1 = ''1''" by code_simp

lemmas label_defs = make_label_def py_int_def str_int_1000 str_int_1002 str_int_1004
  str_int_0 str_int_1












section \<open>Round trip of the session cache\<close>

lemma save_session_ok_world:
  assumes "save_session E w p cs = (True, w1)"
  shows "w1 = w\<lparr>session_files := (session_files w)
           (p \<mapsto> SessionJson \<lparr>cookies = cs, profile_id = p, timestamp = py_int (clock w)\<rparr>)\<rparr>"
  using assms by (auto simp: save_session_def split: io.splits)

text \<open>
  Claim C4. A \<open>save_session\<close> that reports success, immediately followed by
  \<open>load_session\<close> for the same profile, returns a session whose cookies are exactly the
  ones stored; after a second successful \<open>save_session\<close> for the same profile the load
  returns exactly the second cookie dictionary (and the second capture's timestamp):
  nothing of the first capture is left.
\<close>

theorem save_then_load_roundtrip:
  assumes "save_session E w p cs1 = (True, w1)"
      and "save_session E w1 p cs2 = (True, w2)"
  shows "load_session w1 p =
           Some (SessionJson \<lparr>cookies = cs1, profile_id = p, timestamp = py_int (clock w)\<rparr>)
       \<and> load_session w2 p =
           Some (SessionJson \<lparr>cookies = cs2, profile_id = p, timestamp = py_int (clock w1)\<rparr>)"
proof -
  note a = save_session_ok_world [OF assms(1)]
  note b = save_session_ok_world [OF assms(2)]
  have "load_session w1 p =
          Some (SessionJson \<lparr>cookies = cs1, profile_id = p, timestamp = py_int (clock w)\<rparr>)"
    by (simp add: a load_session_def)
  moreover have "load_session w2 p =
          Some (SessionJson \<lparr>cookies = cs2, profile_id = p, timestamp = py_int (clock w1)\<rparr>)"
    by (simp add: b load_session_def)
  ultimately show ?thesis by simp
qed

theorem save_then_load_roundtrip_witness:
  "save_session env_gen world0 ''A'' [(''dsid'', ''1''), (''scnt'', ''c'')]
     = (True, snd (save_session env_gen world0 ''A'' [(''dsid'', ''1''), (''scnt'', ''c'')]))
   \<and> save_session env_gen (snd (save_session env_gen world0 ''A'' [(''dsid'', ''1''), (''scnt'', ''c'')]))
        ''A'' [(''dsid'', ''2'')]
     = (True, snd (save_session env_gen
                (snd (save_session env_gen world0 ''A'' [(''dsid'', ''1''), (''scnt'', ''c'')]))
                ''A'' [(''dsid'', ''2'')]))
   \<and> load_session (snd (save_session env_gen world0 ''A'' [(''dsid'', ''1''), (''scnt'', ''c'')])) ''A''
     = Some (SessionJson \<lparr>cookies = [(''dsid'', ''1''), (''scnt'', ''c'')], profile_id = ''A'',
                           timestamp = 1000\<rparr>)
   \<and> load_session (snd (save_session env_gen
                (snd (save_session env_gen world0 ''A'' [(''dsid'', ''1''), (''scnt'', ''c'')]))
                ''A'' [(''dsid'', ''2'')])) ''A''
     = Some (SessionJson \<lparr>cookies = [(''dsid'', ''2'')], profile_id = ''A'', timestamp = 1000\<rparr>)"
proof -
  let ?w1 = "snd (save_session env_gen world0 ''A'' [(''dsid'', ''1''), (''scnt'', ''c'')])"
  let ?w2 = "snd (save_session env_gen ?w1 ''A'' [(''dsid'', ''2'')])"
  have h1: "save_session env_gen world0 ''A'' [(''dsid'', ''1''), (''scnt'', ''c'')] = (True, ?w1)"
    by (simp add: save_session_def env_gen_def)
  have h2: "save_session env_gen ?w1 ''A'' [(''dsid'', ''2'')] = (True, ?w2)"
    by (simp add: save_session_def env_gen_def)
  have c0: "py_int (clock world0) = 1000" by (simp add: world0_def py_int_def)
  have c1: "py_int (clock ?w1) = 1000"
    by (simp add: save_session_def env_gen_def world0_def py_int_def)
  from save_then_load_roundtrip [OF h1 h2] c0 c1 h1 h2 show ?thesis by simp
qed

section \<open>The quota of a batch\<close>

text \<open>
  Claim C1, amended to a list of identities without duplicates. For every identity \<open>p\<close> of the
  list (whatever its cached session, so in particular when it is present and complete)
  and quota \<open>n\<close>: \<open>generate_batch\<close> makes at most \<open>n\<close> calls of \<open>generate_email\<close> for \<open>p\<close>
  (none when \<open>n \<le> 0\<close>), also when the batch ends in an exception; and when it returns,
  the list returned for \<open>p\<close> has at most \<open>n\<close> elements and exactly as many as calls for
  \<open>p\<close> succeeded.
\<close>

theorem generate_batch_quota:
  assumes "generate_batch E w ids (JInt n) pre = (r, w')"
      and "distinct ids" and "p \<in> set ids"
  shows "length (calls_for p (new_calls w w')) \<le> nat n
       \<and> (case r of
            Inl e \<Rightarrow> True
          | Inr res \<Rightarrow>
              (\<exists>es. map_of res p = Some es \<and> length es \<le> nat n
                 \<and> length es = length (filter c_success (calls_for p (new_calls w w')))))"
proof -
  from assms(1) have b: "batch_loop E (JInt n) pre ids [] w = (r, w')"
    by (simp add: generate_batch_def)
  have pr: "py_range (JInt n) = Some n" by simp
  from batch_loop_calls [OF b pr] obtain cs where
    cs: "gen_log w' = gen_log w @ cs"
        "\<forall>q. length (calls_for q cs) \<le> nat n * count_list ids q"
    by blast
  have nc: "new_calls w w' = cs" using cs(1) by (rule new_calls_append)
  have "nat n * count_list ids p \<le> nat n"
    using count_list_distinct [OF assms(2), of p] by simp
  with cs(2) nc have le: "length (calls_for p (new_calls w w')) \<le> nat n"
    by (metis le_trans)
  have le2: "length (filter c_success (calls_for p (new_calls w w'))) \<le> nat n"
    by (rule le_trans [OF length_filter_le le])
  from batch_loop_distinct [OF b pr assms(2), of p] assms(3) le2
  have "case r of Inl e \<Rightarrow> True
          | Inr res \<Rightarrow>
              (\<exists>es. map_of res p = Some es \<and> length es \<le> nat n
                 \<and> length es = length (filter c_success (calls_for p (new_calls w w'))))"
    by (cases r) auto
  with le show ?thesis by simp
qed

text \<open>
  The theorem at the identities A and B with complete sessions and quota 3.
\<close>

theorem generate_batch_quota_witness:
  "distinct [''A'', ''B''] \<and> ''A'' \<in> set [''A'', ''B''] \<and> complete full_cookies
   \<and> fst (generate_batch env_gen world_AB [''A'', ''B''] (JInt 3) ''Auto_'')
       = Inr [(''A'', [''a@icloud.com'', ''a@icloud.com'', ''a@icloud.com'']),
              (''B'', [''a@icloud.com'', ''a@icloud.com'', ''a@icloud.com''])]
   \<and> length (calls_for ''A'' (new_calls world_AB
         (snd (generate_batch env_gen world_AB [''A'', ''B''] (JInt 3) ''Auto_'')))) \<le> nat 3
   \<and> length [''a@icloud.com'', ''a@icloud.com'', ''a@icloud.com'']
       = length (filter c_success (calls_for ''A'' (new_calls world_AB
           (snd (generate_batch env_gen world_AB [''A'', ''B''] (JInt 3) ''Auto_'')))))"
proof -
  let ?X = "generate_batch env_gen world_AB [''A'', ''B''] (JInt 3) ''Auto_''"
  have ev: "fst ?X = Inr [(''A'', [''a@icloud.com'', ''a@icloud.com'', ''a@icloud.com'']),
                          (''B'', [''a@icloud.com'', ''a@icloud.com'', ''a@icloud.com''])]"
    by (simp add: eval_defs parse_generated upt_rec)
  have h1: "?X = (fst ?X, snd ?X)" by simp
  have h2: "distinct [''A'', ''B'']" by simp
  have h3: "''A'' \<in> set [''A'', ''B'']" by simp
  have c: "complete full_cookies"
    by (simp add: complete_def full_cookies_def REQUIRED_COOKIES_def)
  from generate_batch_quota [OF h1 h2 h3] ev c show ?thesis by simp
qed

text \<open>
  Claim C1 as stated fails when the list names an identity twice: with \<open>[A, A]\<close> and quota
  1, two calls are made for A (more than the quota), both succeed, and the list returned
  for A has one element.
\<close>

theorem generate_batch_quota_duplicates:
  "complete full_cookies
   \<and> fst (generate_batch env_gen world_AB [''A'', ''A''] (JInt 1) ''Auto_'')
       = Inr [(''A'', [''a@icloud.com''])]
   \<and> map c_success (calls_for ''A'' (new_calls world_AB
         (snd (generate_batch env_gen world_AB [''A'', ''A''] (JInt 1) ''Auto_''))))
       = [True, True]"
  by (simp add: eval_defs parse_generated complete_def REQUIRED_COOKIES_def)

text \<open>
  Claim C3, amended. A failed call does not end the calls for its identity: whenever
  \<open>generate_batch\<close> returns, every identity got exactly \<open>n\<close> calls for each of its
  occurrences in the list (none when \<open>n \<le> 0\<close>), whatever their outcomes, and so did the
  identities after it.
\<close>

theorem generate_batch_no_abandon:
  assumes "generate_batch E w ids (JInt n) pre = (Inr res, w')"
  shows "length (calls_for p (new_calls w w')) = nat n * count_list ids p"
proof -
  from assms have b: "batch_loop E (JInt n) pre ids [] w = (Inr res, w')"
    by (simp add: generate_batch_def)
  have pr: "py_range (JInt n) = Some n" by simp
  from batch_loop_calls [OF b pr] obtain cs where
    cs: "gen_log w' = gen_log w @ cs"
        "\<forall>q. length (calls_for q cs) = nat n * count_list ids q"
    by blast
  have "new_calls w w' = cs" using cs(1) by (rule new_calls_append)
  with cs(2) show ?thesis by simp
qed

text \<open>
  Claim C3 as stated fails: with quota 2 and a generator that fails on the first call,
  the first call for A fails and a second call for A is made all the same (and succeeds);
  the batch then goes on with B.
\<close>

theorem generate_batch_calls_after_failure:
  "map c_success (calls_for ''A'' (new_calls world_AB
      (snd (generate_batch env_flaky world_AB [''A'', ''B''] (JInt 2) ''Auto_''))))
     = [False, True]
   \<and> fst (generate_batch env_flaky world_AB [''A'', ''B''] (JInt 2) ''Auto_'')
     = Inr [(''A'', [''a@icloud.com'']), (''B'', [''a@icloud.com'', ''a@icloud.com''])]"
  by (simp add: eval_defs parse_generated parse_empty upt_rec)

text \<open>
  The theorem at that run.
\<close>

theorem generate_batch_no_abandon_witness:
  "generate_batch env_flaky world_AB [''A'', ''B''] (JInt 2) ''Auto_''
     = (Inr [(''A'', [''a@icloud.com'']), (''B'', [''a@icloud.com'', ''a@icloud.com''])],
        snd (generate_batch env_flaky world_AB [''A'', ''B''] (JInt 2) ''Auto_''))
   \<and> length (calls_for ''A'' (new_calls world_AB
         (snd (generate_batch env_flaky world_AB [''A'', ''B''] (JInt 2) ''Auto_''))))
     = nat 2 * count_list [''A'', ''B''] ''A''"
proof -
  let ?X = "generate_batch env_flaky world_AB [''A'', ''B''] (JInt 2) ''Auto_''"
  have ev: "fst ?X = Inr [(''A'', [''a@icloud.com'']), (''B'', [''a@icloud.com'', ''a@icloud.com''])]"
    by (simp add: eval_defs parse_generated parse_empty upt_rec)
  then have h: "?X = (Inr [(''A'', [''a@icloud.com'']), (''B'', [''a@icloud.com'', ''a@icloud.com''])],
                      snd ?X)"
    by (simp add: prod_eq_iff)
  from generate_batch_no_abandon [OF h, of "''A''"] h show ?thesis by simp
qed

section \<open>An identity listed more than once\<close>

text \<open>
  Claim C9. When \<open>generate_batch\<close> returns for a list \<open>xs @ q # ys\<close> in which \<open>q\<close> does not
  occur in \<open>ys\<close> (so this is the last occurrence of \<open>q\<close>, and \<open>xs\<close> may hold earlier ones),
  the returned dictionary has one entry per identity (its keys are distinct), and the
  entry of \<open>q\<close> is exactly the list that the inner loop produced for this last
  occurrence, started from the empty list in the world the earlier identities left:
  nothing produced for an earlier occurrence of \<open>q\<close> is in it.
\<close>

theorem generate_batch_last_occurrence:
  assumes "generate_batch E w (xs @ q # ys) cnt pre = (Inr res, w')"
      and "q \<notin> set ys"
  shows "\<exists>r1 w1 n es w2.
           generate_batch E w xs cnt pre = (Inr r1, w1)
         \<and> py_range cnt = Some n
         \<and> gen_loop E q pre n [0..<nat n] [] w1 = (Inr es, w2)
         \<and> map_of res q = Some es
         \<and> distinct (map fst res)"
proof -
  from assms(1) have b: "batch_loop E cnt pre (xs @ q # ys) [] w = (Inr res, w')"
    by (simp add: generate_batch_def)
  obtain r0 w1 where b1: "batch_loop E cnt pre xs [] w = (r0, w1)"
    by (cases "batch_loop E cnt pre xs [] w")
  with b obtain r1 where r0: "r0 = Inr r1"
    by (cases r0) (auto simp: batch_loop_append)
  from b b1 r0 have b2: "batch_loop E cnt pre (q # ys) r1 w1 = (Inr res, w')"
    by (simp add: batch_loop_append)
  then obtain n where n: "py_range cnt = Some n"
    by (cases "py_range cnt") auto
  obtain r2 w2 where g: "gen_loop E q pre n [0..<nat n] [] w1 = (r2, w2)"
    by (cases "gen_loop E q pre n [0..<nat n] [] w1")
  with b2 n obtain es where r2: "r2 = Inr es"
    by (cases r2) auto
  from b2 n g r2 have b3:
    "batch_loop E cnt pre ys (AList.update q es (AList.update q [] r1)) w2 = (Inr res, w')"
    by simp
  from batch_loop_calls [OF b3 n] assms(2)
  have "map_of res q = map_of (AList.update q es (AList.update q [] r1)) q"
    by blast
  then have m: "map_of res q = Some es" by (simp add: update_conv')
  from batch_loop_calls [OF b n] have d: "distinct (map fst res)" by auto
  from b1 r0 g r2 n m d show ?thesis
    by (auto simp: generate_batch_def)
qed

text \<open>
  The theorem at \<open>[A, A]\<close> with quota 1 and a generator that works on the first call
  only: the first occurrence of A produces an address (the batch over \<open>[A]\<close> returns it),
  the second produces none, and the entry returned for A is empty.
\<close>

theorem generate_batch_last_occurrence_witness:
  "generate_batch env_once world_AB ([''A''] @ ''A'' # []) (JInt 1) ''Auto_''
     = (Inr [(''A'', [])],
        snd (generate_batch env_once world_AB ([''A''] @ ''A'' # []) (JInt 1) ''Auto_''))
   \<and> ''A'' \<notin> set []
   \<and> fst (generate_batch env_once world_AB [''A''] (JInt 1) ''Auto_'')
       = Inr [(''A'', [''a@icloud.com''])]
   \<and> (\<exists>r1 w1 n es w2.
           generate_batch env_once world_AB [''A''] (JInt 1) ''Auto_'' = (Inr r1, w1)
         \<and> py_range (JInt 1) = Some n
         \<and> gen_loop env_once ''A'' ''Auto_'' n [0..<nat n] [] w1 = (Inr es, w2)
         \<and> map_of [(''A'', [])] ''A'' = Some es
         \<and> distinct (map fst [(''A'', [] :: string list)]))"
proof -
  let ?X = "generate_batch env_once world_AB ([''A''] @ ''A'' # []) (JInt 1) ''Auto_''"
  have ev: "fst ?X = Inr [(''A'', [])]"
    by (simp add: eval_defs parse_generated parse_empty)
  then have h1: "?X = (Inr [(''A'', [])], snd ?X)"
    by (simp add: prod_eq_iff)
  have h2: "''A'' \<notin> set []" by simp
  have ev1: "fst (generate_batch env_once world_AB [''A''] (JInt 1) ''Auto_'')
       = Inr [(''A'', [''a@icloud.com''])]"
    by (simp add: eval_defs parse_generated parse_empty)
  from generate_batch_last_occurrence [OF h1 h2] h1 ev1 show ?thesis by simp
qed

section \<open>Labels\<close>

text \<open>
  Claim C6, amended. In one run of \<open>generate_batch\<close>:
  \<^item> when the identities of the list are pairwise different, any two calls for the same
    identity have different labels (their indices differ);
  \<^item> when the quota is at least 2 and no generator call takes negative time (the clock
    does not run backwards), all labels of the run are pairwise different: two calls
    with the same index are then at least two seconds apart.
\<close>

theorem generate_batch_labels:
  assumes "generate_batch E w ids (JInt n) pre = (r, w')"
  shows "(distinct ids \<longrightarrow> distinct (map c_label (calls_for p (new_calls w w'))))
       \<and> (2 \<le> n \<and> (\<forall>w cs l. 0 \<le> fst (tool E w cs l))
            \<longrightarrow> distinct (map c_label (new_calls w w')))"
proof -
  from assms have b: "batch_loop E (JInt n) pre ids [] w = (r, w')"
    by (simp add: generate_batch_def)
  have pr: "py_range (JInt n) = Some n" by simp
  have "distinct ids \<longrightarrow> distinct (map c_label (calls_for p (new_calls w w')))"
    using batch_loop_distinct [OF b pr, of p] by simp
  moreover have "2 \<le> n \<and> (\<forall>w cs l. 0 \<le> fst (tool E w cs l))
            \<longrightarrow> distinct (map c_label (new_calls w w'))"
    using batch_loop_labels [OF _ b] by blast
  ultimately show ?thesis by simp
qed

text \<open>
  Claim C6 as stated fails for quota 1: nothing separates the call for A from the call
  for B, the generator answers within the second, and both calls carry the label
  \<open>Auto_1000_0\<close>.
\<close>

theorem generate_batch_label_collision:
  "map c_profile (new_calls world_AB
      (snd (generate_batch env_gen world_AB [''A'', ''B''] (JInt 1) ''Auto_''))) = [''A'', ''B'']
   \<and> map c_label (new_calls world_AB
      (snd (generate_batch env_gen world_AB [''A'', ''B''] (JInt 1) ''Auto_'')))
     = [Some ''Auto_1000_0'', Some ''Auto_1000_0'']"
  by (simp add: eval_defs parse_generated label_defs)

text \<open>
  The theorem at the identities A and B with quota 2.
\<close>

theorem generate_batch_labels_witness:
  "distinct [''A'', ''B''] \<and> (2 :: int) \<le> 2 \<and> (\<forall>w cs l. 0 \<le> fst (tool env_gen w cs l))
   \<and> map c_label (new_calls world_AB
        (snd (generate_batch env_gen world_AB [''A'', ''B''] (JInt 2) ''Auto_'')))
     = [Some ''Auto_1000_0'', Some ''Auto_1002_1'', Some ''Auto_1002_0'', Some ''Auto_1004_1'']
   \<and> distinct (map c_label (calls_for ''A'' (new_calls world_AB
        (snd (generate_batch env_gen world_AB [''A'', ''B''] (JInt 2) ''Auto_'')))))
   \<and> distinct (map c_label (new_calls world_AB
        (snd (generate_batch env_gen world_AB [''A'', ''B''] (JInt 2) ''Auto_''))))"
proof -
  let ?X = "generate_batch env_gen world_AB [''A'', ''B''] (JInt 2) ''Auto_''"
  have h: "?X = (fst ?X, snd ?X)" by simp
  have d: "distinct [''A'', ''B'']" by simp
  have t: "\<forall>w cs l. 0 \<le> fst (tool env_gen w cs l)" by (simp add: env_gen_def)
  have ev: "map c_label (new_calls world_AB (snd ?X))
     = [Some ''Auto_1000_0'', Some ''Auto_1002_1'', Some ''Auto_1002_0'', Some ''Auto_1004_1'']"
    by (simp add: eval_defs parse_generated label_defs upt_rec)
  from generate_batch_labels [OF h, of "''A''"] d t
  have "distinct (map c_label (calls_for ''A'' (new_calls world_AB (snd ?X))))"
    and "distinct (map c_label (new_calls world_AB (snd ?X)))"
    by simp_all
  with d t ev show ?thesis by simp
qed

section \<open>Scheduler transitions\<close>

text \<open>
  Claim C5. An invalid transition is answered with False and raises nothing: \<open>start\<close>
  returns False, changing nothing, when the scheduler runs (its thread is alive, which
  is what \<open>start\<close> tests), so in particular a second \<open>start\<close> after one that returned
  True; \<open>stop\<close> returns False when \<open>running\<close> is false, changing nothing, so \<open>running\<close>
  stays false, and in particular a second \<open>stop\<close> after one that returned True.
\<close>

theorem invalid_transitions:
  "(scheduler_thread S = Some True \<longrightarrow> start E S w = (Inr False, S, w))
   \<and> (\<forall>S1 w1 w2. start E S w = (Inr True, S1, w1) \<longrightarrow> start E S1 w2 = (Inr False, S1, w2))
   \<and> (\<not> running S \<longrightarrow> stop E S w = (False, S) \<and> \<not> running (snd (stop E S w)))
   \<and> (\<forall>S1 w2. stop E S w = (True, S1) \<longrightarrow> stop E S1 w2 = (False, S1))"
proof -
  have 1: "scheduler_thread S = Some True \<longrightarrow> start E S w = (Inr False, S, w)"
    by (simp add: start_def)
  have 2: "\<forall>S1 w1 w2. start E S w = (Inr True, S1, w1) \<longrightarrow> start E S1 w2 = (Inr False, S1, w2)"
    by (auto simp: start_def split: if_splits prod.splits sum.splits)
  have 3: "\<not> running S \<longrightarrow> stop E S w = (False, S) \<and> \<not> running (snd (stop E S w))"
    by (simp add: stop_def)
  have 4: "\<forall>S1 w2. stop E S w = (True, S1) \<longrightarrow> stop E S1 w2 = (False, S1)"
    by (auto simp: stop_def split: if_splits)
  from 1 2 3 4 show ?thesis by blast
qed

text \<open>
  The theorem at a running scheduler (for \<open>start\<close>) and at a new one (for \<open>stop\<close>).
\<close>

theorem invalid_transitions_witness:
  "scheduler_thread ((new_scheduler cfg2)\<lparr>running := True, scheduler_thread := Some True\<rparr>)
     = Some True
   \<and> start env_gen ((new_scheduler cfg2)\<lparr>running := True, scheduler_thread := Some True\<rparr>) world0
     = (Inr False, (new_scheduler cfg2)\<lparr>running := True, scheduler_thread := Some True\<rparr>, world0)
   \<and> \<not> running (new_scheduler cfg2)
   \<and> stop env_gen (new_scheduler cfg2) world0 = (False, new_scheduler cfg2)
   \<and> \<not> running (snd (stop env_gen (new_scheduler cfg2) world0))"
proof -
  let ?R = "(new_scheduler cfg2)\<lparr>running := True, scheduler_thread := Some True\<rparr>"
  have a: "scheduler_thread ?R = Some True" by simp
  have b: "\<not> running (new_scheduler cfg2)" by (simp add: new_scheduler_def)
  from invalid_transitions [where S = ?R and E = env_gen and w = world0] a
  have 1: "start env_gen ?R world0 = (Inr False, ?R, world0)" by blast
  from invalid_transitions [where S = "new_scheduler cfg2" and E = env_gen and w = world0] b
  have 2: "stop env_gen (new_scheduler cfg2) world0 = (False, new_scheduler cfg2)
            \<and> \<not> running (snd (stop env_gen (new_scheduler cfg2) world0))" by blast
  from a b 1 2 show ?thesis by blast
qed

section \<open>The status snapshot\<close>




section \<open>Extraction counts\<close>




section \<open>The jobs never raise\<close>




section \<open>Counters never decrease\<close>



end
